theory Spec2Isabelle
  imports Complex_Main "HOL-Library.Sublist"
begin

section \<open>Python string primitives\<close>

text \<open>
  A Python \<open>str\<close> is modelled as a \<open>string\<close>, one \<open>char\<close> per code point; the model
  covers the code points below 256. \<open>isspace\<close> and \<open>isdigit\<close> are \<open>str.isspace\<close> and
  \<open>str.isdigit\<close> on that range (the latter is also true of the superscript digits).
\<close>

definition isspace :: "char \<Rightarrow> bool" where
  "isspace c = (let n = (of_char c :: nat) in
     (9 \<le> n \<and> n \<le> 13) \<or> (28 \<le> n \<and> n \<le> 32) \<or> n = 133 \<or> n = 160)"

definition isdigit :: "char \<Rightarrow> bool" where
  "isdigit c = (let n = (of_char c :: nat) in
     (48 \<le> n \<and> n \<le> 57) \<or> n = 178 \<or> n = 179 \<or> n = 185)"

text \<open>\<open>s.split()\<close>: the maximal runs of non-whitespace characters, in order.\<close>

function split_ws :: "string \<Rightarrow> string list" where
  "split_ws s = (case dropWhile isspace s of
       [] \<Rightarrow> []
     | c # t \<Rightarrow> (c # takeWhile (\<lambda>x. \<not> isspace x) t)
                # split_ws (dropWhile (\<lambda>x. \<not> isspace x) t))"
  by pat_completeness auto
termination
proof (relation "measure length")
  show "wf (measure length)" by simp
next
  fix s :: string and c t
  assume h: "dropWhile isspace s = c # t"
  have "length (dropWhile (\<lambda>x. \<not> isspace x) t) \<le> length t"
    by (rule length_dropWhile_le)
  moreover have "length (c # t) \<le> length s"
    using length_dropWhile_le [of isspace s] h by simp
  ultimately show "(dropWhile (\<lambda>x. \<not> isspace x) t, s) \<in> measure length"
    by simp
qed

declare split_ws.simps [simp del]

text \<open>\<open>sep.join(xs)\<close>.\<close>

fun join :: "string \<Rightarrow> string list \<Rightarrow> string" where
  "join sep [] = []"
| "join sep [x] = x"
| "join sep (x # y # ys) = x @ sep @ join sep (y # ys)"

text \<open>\<open>s.strip()\<close>: whitespace removed at both ends.\<close>

definition strip :: "string \<Rightarrow> string" where
  "strip s = rev (dropWhile isspace (rev (dropWhile isspace s)))"

section \<open>Documents and the document selector\<close>

text \<open>The pydantic model \<open>Document\<close> (its field \<open>text\<close> is \<open>doc_text\<close> here); \<open>embedding\<close>
  defaults to \<open>None\<close>.\<close>

record document =
  doc_text :: string
  url :: string
  embedding :: "real list option"

definition count_words :: "string \<Rightarrow> nat" where
  "count_words t = length (split_ws t)"

text \<open>
  A Python \<open>dict\<close> keeps its keys in insertion order, and storing under a key that is
  already present replaces the value where the key stands.
\<close>

fun dict_set :: "('k \<times> 'v) list \<Rightarrow> 'k \<Rightarrow> 'v \<Rightarrow> ('k \<times> 'v) list" where
  "dict_set [] k v = [(k, v)]"
| "dict_set ((k', v') # d) k v =
     (if k' = k then (k, v) # d else (k', v') # dict_set d k v)"

text \<open>\<open>{doc.url: count_words(doc.text) for doc in docs}\<close>\<close>

definition word_counts :: "document list \<Rightarrow> (string \<times> nat) list" where
  "word_counts docs =
     foldl (\<lambda>d doc. dict_set d (url doc) (count_words (doc_text doc))) [] docs"

text \<open>
  \<open>word_counts[u]\<close>. Every key looked up in \<open>select_docs\<close> is the URL of a document of
  the input, hence present (lemma \<open>wc_get_defined\<close> below).
\<close>

definition wc_get :: "(string \<times> nat) list \<Rightarrow> string \<Rightarrow> nat" where
  "wc_get d u = (case map_of d u of Some n \<Rightarrow> n | None \<Rightarrow> 0)"




text \<open>
  The truncation \<open>doc.text = " ".join(doc.text.split()[:10000])\<close>. The source assigns
  in place, so the caller's document objects change as well; the model gives the
  documents as they are returned.
\<close>

definition truncate_doc :: "(string \<times> nat) list \<Rightarrow> document \<Rightarrow> document" where
  "truncate_doc wc doc =
     (if 10000 < wc_get wc (url doc)
      then doc\<lparr>doc_text := join '' '' (take 10000 (split_ws (doc_text doc)))\<rparr>
      else doc)"




subsection \<open>Sample documents\<close>



section \<open>Exceptions\<close>

text \<open>
  The exceptions the modelled code raises itself or receives from its collaborators,
  all of them subclasses of \<open>Exception\<close> (what \<open>except Exception\<close> catches). A
  function that can raise returns \<open>error + 'a\<close>, with \<open>Inl\<close> for the raise.
\<close>

datatype error =
    IndexError
  | ValueError string
  | AttributeError
  | RequestException
  | OtherException string

section \<open>Splitting on a separator, and the other string operations of the parsers\<close>

text \<open>
  \<open>s.split(sep)\<close> for a non-empty \<open>sep\<close>: the pieces between the occurrences of
  \<open>sep\<close>, found from left to right without overlap. Every separator in the source is a
  non-empty literal (on an empty one Python raises; \<open>split_on\<close> then leaves \<open>s\<close> whole).
\<close>

function split_on :: "string \<Rightarrow> string \<Rightarrow> string list" where
  "split_on sep [] = [[]]"
| "split_on sep (c # cs) =
     (if sep \<noteq> [] \<and> prefix sep (c # cs)
      then [] # split_on sep (drop (length sep) (c # cs))
      else (case split_on sep cs of [] \<Rightarrow> [[c]] | p # ps \<Rightarrow> (c # p) # ps))"
  by pat_completeness auto
termination
  by (relation "measure (\<lambda>(sep, s). length s)") auto

text \<open>\<open>s.replace('"', '')\<close>: every double quote removed.\<close>

definition remove_quotes :: "string \<Rightarrow> string" where
  "remove_quotes s = filter (\<lambda>c. c \<noteq> CHR 0x22) s"

text \<open>
  \<open>re.sub(r'<[^>]*>', '', s)\<close>. Scanning from the left, a match starts at a \<open><\<close> that
  has some \<open>>\<close> after it and ends at the first such \<open>>\<close> (the class \<open>[^>]\<close> cannot
  step over one); the match is deleted and the scan goes on behind it.
\<close>

function strip_tags :: "string \<Rightarrow> string" where
  "strip_tags [] = []"
| "strip_tags (c # cs) =
     (if c = CHR ''<'' \<and> CHR ''>'' \<in> set cs
      then strip_tags (drop 1 (dropWhile (\<lambda>x. x \<noteq> CHR ''>'') cs))
      else c # strip_tags cs)"
  by pat_completeness auto
termination
proof (relation "measure length")
  show "wf (measure length)" by simp
next
  fix c :: char and cs :: string
  have "length (dropWhile (\<lambda>x. x \<noteq> CHR ''>'') cs) \<le> length cs"
    by (rule length_dropWhile_le)
  then show "(drop 1 (dropWhile (\<lambda>x. x \<noteq> CHR ''>'') cs), c # cs) \<in> measure length"
    by simp
next
  fix c :: char and cs :: string
  show "(cs, c # cs) \<in> measure length" by simp
qed

text \<open>Whether some substring of \<open>s\<close> matches \<open><[^>]*>\<close>: a \<open><\<close> with a \<open>>\<close> after it.\<close>

fun has_tag :: "string \<Rightarrow> bool" where
  "has_tag [] = False"
| "has_tag (c # cs) = ((c = CHR ''<'' \<and> CHR ''>'' \<in> set cs) \<or> has_tag cs)"

text \<open>The slice \<open>xs[::2]\<close>: the entries at the even indices.\<close>

fun every_other :: "'a list \<Rightarrow> 'a list" where
  "every_other [] = []"
| "every_other [x] = [x]"
| "every_other (x # y # xs) = x # every_other xs"

section \<open>The query generator\<close>

subsection \<open>Parsing the model's answer\<close>

text \<open>
  \<open>response.split("<queries>")[1].split("</queries>")[0].split("\n")\<close>: index 1 raises
  \<open>IndexError\<close> when the opening tag is absent; index 0 always exists.
\<close>

definition raw_queries :: "string \<Rightarrow> error + string list" where
  "raw_queries response =
     (case split_on ''<queries>'' response of
        _ # after # _ \<Rightarrow>
          (case split_on ''</queries>'' after of
             [] \<Rightarrow> Inl IndexError
           | inner # _ \<Rightarrow> Inr (split_on [CHR 0x0A] inner))
      | _ \<Rightarrow> Inl IndexError)"

text \<open>\<open>[query.strip() for query in queries if query.strip()]\<close>\<close>

definition parsed_queries :: "string list \<Rightarrow> string list" where
  "parsed_queries queries = map strip (filter (\<lambda>query. strip query \<noteq> []) queries)"

text \<open>\<open>". ".join(query.split(". ")[1:])\<close>\<close>

definition strip_ordinal :: "string \<Rightarrow> string" where
  "strip_ordinal query = join ''. '' (drop 1 (split_on ''. '' query))"

text \<open>
  The body of the loop over \<open>parsed_queries\<close>; \<open>query[0]\<close> raises \<open>IndexError\<close> on an
  empty string.
\<close>

definition enhance_query :: "string \<Rightarrow> error + string" where
  "enhance_query query =
     (case query of
        [] \<Rightarrow> Inl IndexError
      | c # _ \<Rightarrow> Inr (remove_quotes (if isdigit c then strip_ordinal query else query)))"

fun enhance_loop :: "string list \<Rightarrow> string list \<Rightarrow> error + string list" where
  "enhance_loop [] enhanced_queries = Inr enhanced_queries"
| "enhance_loop (query # rest) enhanced_queries =
     (case enhance_query query of
        Inl e \<Rightarrow> Inl e
      | Inr q \<Rightarrow> enhance_loop rest (enhanced_queries @ [q]))"

text \<open>The two final comprehensions: quotes removed once more, then the tags.\<close>

definition final_query :: "string \<Rightarrow> string" where
  "final_query query = strip_tags (remove_quotes query)"

definition parser_query_response :: "string \<Rightarrow> int \<Rightarrow> error + string list" where
  "parser_query_response response num_queries =
     (case raw_queries response of
        Inl e \<Rightarrow> Inl e
      | Inr queries \<Rightarrow>
          (case enhance_loop (parsed_queries queries) [] of
             Inl e \<Rightarrow> Inl e
           | Inr enhanced_queries \<Rightarrow>
               Inr (map final_query
                     (if int (length enhanced_queries) = num_queries * 2
                      then every_other enhanced_queries
                      else enhanced_queries))))"

subsection \<open>Calling the model\<close>





definition NUM_QUERIES :: int where "NUM_QUERIES = 5"

subsection \<open>Sample model clients\<close>



definition sample_answer :: string where
  "sample_answer =
     ''<queries>'' @ [CHR 0x0A] @ ''1. foo'' @ [CHR 0x0A] @ ''2. bar'' @ [CHR 0x0A] @ ''</queries>''"


subsection \<open>Sample answers of the model\<close>

text \<open>
  Four lines inside the outer tag; a numbered line with quotes and markup; and a line
  that begins with a digit but has no \<open>". "\<close> in it.
\<close>

definition paired_answer :: string where
  "paired_answer =
     ''<queries>'' @ [CHR 0x0A] @ ''a'' @ [CHR 0x0A] @ ''b'' @ [CHR 0x0A] @ ''c'' @ [CHR 0x0A]
       @ ''d'' @ [CHR 0x0A] @ ''</queries>''"

definition tagged_answer :: string where
  "tagged_answer =
     ''<queries>'' @ [CHR 0x0A] @ ''1. '' @ [CHR 0x22] @ ''foo'' @ [CHR 0x22] @ '' <b>bar</b>''
       @ [CHR 0x0A] @ ''</queries>''"

definition dated_answer :: string where
  "dated_answer =
     ''<queries>'' @ [CHR 0x0A] @ ''foo'' @ [CHR 0x0A] @ ''2024 election results'' @ [CHR 0x0A]
       @ ''</queries>''"

section \<open>The content extractor\<close>

text \<open>
  The slice \<open>xs[:n]\<close> for a Python integer \<open>n\<close>: the first \<open>n\<close> entries, or all but the
  last \<open>-n\<close> when \<open>n\<close> is negative.
\<close>

definition slice_to :: "int \<Rightarrow> 'a list \<Rightarrow> 'a list" where
  "slice_to n xs = (if 0 \<le> n then take (nat n) xs else take (length xs - nat (- n)) xs)"

text \<open>\<open>url.endswith(suf)\<close>\<close>

definition endswith :: "string \<Rightarrow> string \<Rightarrow> bool" where
  "endswith s suf = suffix suf s"

subsection \<open>HTML\<close>

text \<open>
  \<open>extract_text(html, num_words)\<close>. The readability transform followed by \<open>markdownify\<close>
  is the parameter \<open>html_markdown\<close>: it raises, or yields the text or \<open>None\<close>. The test
  \<open>if num_words\<close> is false for \<open>None\<close> and for 0. The result (declared \<open>str\<close>) is a
  \<open>Document\<close> with an empty URL, or \<open>None\<close>.
\<close>

definition extract_text ::
  "(string \<Rightarrow> error + string option) \<Rightarrow> string \<Rightarrow> int option \<Rightarrow> error + document option" where
  "extract_text html_markdown html num_words =
     (case html_markdown html of
        Inl e \<Rightarrow> Inl e
      | Inr None \<Rightarrow> Inr None
      | Inr (Some t) \<Rightarrow>
          Inr (Some \<lparr>doc_text =
                       (case num_words of
                          None \<Rightarrow> join '' '' (split_ws t)
                        | Some k \<Rightarrow>
                            if k \<noteq> 0 then join '' '' (slice_to k (split_ws t))
                            else join '' '' (split_ws t)),
                     url = [], embedding = None\<rparr>))"

subsection \<open>PDF\<close>

text \<open>
  What \<open>extract_text_from_pdf\<close> reads of its own \<open>requests.get(url)\<close>: the
  \<open>Content-Type\<close> header (empty when absent) and, through \<open>PyPDF2\<close>, the texts of the
  pages, or the exception the reader raises.
\<close>

record pdf_response =
  content_type :: string
  page_texts :: "error + string list"

text \<open>
  The function returns a \<open>Document\<close>, or the \<open>ValueError\<close> object it builds when the
  content type is not PDF (returned, not raised), or \<open>None\<close> from its \<open>except\<close> clause.
\<close>

datatype pdf_result = PdfDoc document | PdfValueError string | PdfNone

text \<open>
  \<open>extract_text_from_pdf(url, num_words)\<close>; \<open>pdf_get\<close> is \<open>requests.get\<close> followed by
  \<open>raise_for_status\<close>. The cap is applied as \<open>text[:num_words]\<close>, on the string itself.
\<close>

definition extract_text_from_pdf ::
  "(string \<Rightarrow> error + pdf_response) \<Rightarrow> string \<Rightarrow> int option \<Rightarrow> pdf_result" where
  "extract_text_from_pdf pdf_get u num_words =
     (case pdf_get u of
        Inl e \<Rightarrow> PdfNone
      | Inr response \<Rightarrow>
          if \<not> sublist ''application/pdf'' (content_type response)
          then PdfValueError ''URL does not point to a PDF document''
          else (case page_texts response of
                  Inl e \<Rightarrow> PdfNone
                | Inr pages \<Rightarrow>
                    (let t = concat pages
                     in PdfDoc \<lparr>doc_text =
                                  (case num_words of
                                     None \<Rightarrow> t
                                   | Some k \<Rightarrow> if k \<noteq> 0 then slice_to k t else t),
                                url = u, embedding = None\<rparr>)))"

subsection \<open>Fetching in batches\<close>

text \<open>What \<open>extract_texts\<close> reads of a fetched response.\<close>

record http_response =
  status_code :: int
  resp_content :: string
  resp_text :: string

text \<open>
  The collaborators of the fetch and extraction stage: whether the \<open>k\<close>-th
  \<open>executor.submit(session.get, url)\<close> raises a request error, what \<open>future.result()\<close>
  gives for a URL, the request of the PDF branch, and the HTML transform.
\<close>

record web =
  submit_raises :: "string \<Rightarrow> nat \<Rightarrow> bool"
  get_result :: "string \<Rightarrow> error + http_response"
  pdf_get :: "string \<Rightarrow> error + pdf_response"
  html_markdown :: "string \<Rightarrow> error + string option"

definition HTTP_MAX_RETIES :: nat where "HTTP_MAX_RETIES = 2"

text \<open>
  The retry loop of \<open>process_in_batches\<close> for one URL; the result tells whether a
  future was obtained (\<open>future\<close> is not \<open>None\<close>).
\<close>

function submit_loop :: "(nat \<Rightarrow> bool) \<Rightarrow> nat \<Rightarrow> nat \<Rightarrow> bool" where
  "submit_loop raises attempt retries =
     (if attempt < retries
      then (if raises attempt then submit_loop raises (attempt + 1) retries else True)
      else False)"
  by pat_completeness auto
termination
  by (relation "measure (\<lambda>(raises, attempt, retries). retries - attempt)") auto

declare submit_loop.simps [simp del]

text \<open>
  \<open>urls[i : i + window]\<close> for \<open>i\<close> in \<open>range(0, len(urls), window)\<close>, for a positive
  window (the caller uses the default 5).
\<close>

function batches :: "nat \<Rightarrow> 'a list \<Rightarrow> 'a list list" where
  "batches window urls =
     (if window = 0 \<or> urls = [] then []
      else take window urls # batches window (drop window urls))"
  by pat_completeness auto
termination
  by (relation "measure (\<lambda>(window, urls). length urls)") auto

declare batches.simps [simp del]

definition process_in_batches ::
  "web \<Rightarrow> string list \<Rightarrow> nat \<Rightarrow> nat \<Rightarrow> (bool \<times> string) list list" where
  "process_in_batches w urls window retries =
     map (map (\<lambda>u. (submit_loop (submit_raises w u) 0 retries, u))) (batches window urls)"

subsection \<open>Extraction\<close>

text \<open>
  What \<open>extract_texts\<close> appends to its list: a \<open>Document\<close>, or the \<open>ValueError\<close> object
  of the PDF branch, which takes the attribute \<open>url\<close> like a document does.
\<close>

datatype extracted = Doc document | ValueErrorObject string string

text \<open>
  The body of the \<open>try\<close> once \<open>future.result()\<close> has returned. On \<open>None\<close>, the
  assignment \<open>doc.url = url\<close> raises \<open>AttributeError\<close>, which the \<open>except\<close> clause
  catches: nothing is appended.
\<close>

definition process_result :: "web \<Rightarrow> int option \<Rightarrow> string \<Rightarrow> http_response \<Rightarrow> extracted list" where
  "process_result w num_words u result =
     (if status_code result = 200
      then (if endswith u ''.pdf'' \<or> take 4 (resp_content result) = ''%PDF''
            then (case extract_text_from_pdf (pdf_get w) u num_words of
                    PdfDoc doc \<Rightarrow> [Doc (doc\<lparr>url := u\<rparr>)]
                  | PdfValueError m \<Rightarrow> [ValueErrorObject m u]
                  | PdfNone \<Rightarrow> [])
            else (case extract_text (html_markdown w) (resp_text result) num_words of
                    Inl e \<Rightarrow> []
                  | Inr None \<Rightarrow> []
                  | Inr (Some doc) \<Rightarrow> [Doc (doc\<lparr>url := u\<rparr>)]))
      else [])"

text \<open>One \<open>(future, url)\<close> of a batch.\<close>

definition process_future :: "web \<Rightarrow> int option \<Rightarrow> bool \<times> string \<Rightarrow> extracted list" where
  "process_future w num_words fu =
     (case fu of
        (False, u) \<Rightarrow> []
      | (True, u) \<Rightarrow>
          (case get_result w u of
             Inl e \<Rightarrow> []
           | Inr result \<Rightarrow> process_result w num_words u result))"

definition extract_texts :: "web \<Rightarrow> string list \<Rightarrow> int option \<Rightarrow> extracted list" where
  "extract_texts w urls num_words =
     concat (map (\<lambda>batch. concat (map (process_future w num_words) batch))
               (process_in_batches w urls 5 HTTP_MAX_RETIES))"

subsection \<open>A sample web\<close>

text \<open>
  Five URLs: a \<open>.pdf\<close> URL serving HTML, whose PDF request fails; a URL without suffix
  serving a PDF; a page answering 404; a URL whose fetch raises; and an HTML page. The
  HTML transform is taken to be the identity.
\<close>

definition sample_get_result :: "string \<Rightarrow> error + http_response" where
  "sample_get_result u =
     (if u = ''http://a/x.pdf''
        then Inr \<lparr>status_code = 200, resp_content = ''<html>'', resp_text = ''<html>''\<rparr>
      else if u = ''http://b/y''
        then Inr \<lparr>status_code = 200, resp_content = ''%PDF-1.4'', resp_text = ''%PDF-1.4''\<rparr>
      else if u = ''http://c/z''
        then Inr \<lparr>status_code = 404, resp_content = ''gone'', resp_text = ''gone''\<rparr>
      else if u = ''http://e/h''
        then Inr \<lparr>status_code = 200, resp_content = ''one  two'', resp_text = ''one  two''\<rparr>
      else Inl RequestException)"

definition sample_pdf_get :: "string \<Rightarrow> error + pdf_response" where
  "sample_pdf_get u =
     (if u = ''http://b/y''
        then Inr \<lparr>content_type = ''application/pdf'', page_texts = Inr [''a  b c'']\<rparr>
      else Inl (OtherException ''not a PDF''))"

definition sample_markdown :: "string \<Rightarrow> error + string option" where
  "sample_markdown html = Inr (Some html)"

definition sample_submit :: "string \<Rightarrow> nat \<Rightarrow> bool" where
  "sample_submit u attempt = False"

definition sample_web :: web where
  "sample_web = \<lparr>submit_raises = sample_submit, get_result = sample_get_result,
                  pdf_get = sample_pdf_get, html_markdown = sample_markdown\<rparr>"

definition sample_urls :: "string list" where
  "sample_urls = [''http://a/x.pdf'', ''http://b/y'', ''http://c/z'', ''http://d/w'', ''http://e/h'']"

section \<open>The prediction parser\<close>

definition open_tag :: "string \<Rightarrow> string" where
  "open_tag key = ''<'' @ key @ ''>''"

definition close_tag :: "string \<Rightarrow> string" where
  "close_tag key = ''</'' @ key @ ''>''"

text \<open>
  \<open>response.split(f"<{key}>")[1].split(f"</{key}>")[0].strip()\<close>: index 1 raises
  \<open>IndexError\<close> when the opening tag is absent; when the closing tag is absent, index 0
  is the whole piece.
\<close>

definition field_text :: "string \<Rightarrow> string \<Rightarrow> error + string" where
  "field_text response key =
     (case split_on (open_tag key) response of
        _ # after # _ \<Rightarrow>
          (case split_on (close_tag key) after of
             [] \<Rightarrow> Inl IndexError
           | inner # _ \<Rightarrow> Inr (strip inner))
      | _ \<Rightarrow> Inl IndexError)"

text \<open>
  The body of the loop for one key. Python's \<open>float\<close> is the parameter \<open>to_float\<close>
  (\<open>None\<close> where \<open>float\<close> raises); whatever is raised inside the \<open>try\<close> is replaced by
  \<open>ValueError(f"Error parsing {key}")\<close>.
\<close>

definition parse_field :: "(string \<Rightarrow> 'f option) \<Rightarrow> string \<Rightarrow> string \<Rightarrow> error + 'f" where
  "parse_field to_float response key =
     (case field_text response key of
        Inl e \<Rightarrow> Inl (ValueError (''Error parsing '' @ key))
      | Inr v \<Rightarrow>
          (case to_float v of
             None \<Rightarrow> Inl (ValueError (''Error parsing '' @ key))
           | Some x \<Rightarrow> Inr x))"

fun parse_loop ::
  "(string \<Rightarrow> 'f option) \<Rightarrow> string \<Rightarrow> string list \<Rightarrow> (string \<times> 'f) list \<Rightarrow>
   error + (string \<times> 'f) list" where
  "parse_loop to_float response [] results = Inr results"
| "parse_loop to_float response (key # keys) results =
     (case parse_field to_float response key of
        Inl e \<Rightarrow> Inl e
      | Inr x \<Rightarrow> parse_loop to_float response keys (dict_set results key x))"

definition KEYS :: "string list" where
  "KEYS = [''p_yes'', ''p_no'', ''info_utility'', ''confidence'']"

text \<open>
  \<open>parser_prediction_response(response)\<close>; \<open>json.dumps\<close> is the parameter \<open>json_dumps\<close>.
  There is one pass over the keys and no second call of the model.
\<close>

definition parser_prediction_response ::
  "(string \<Rightarrow> 'f option) \<Rightarrow> ((string \<times> 'f) list \<Rightarrow> 'j) \<Rightarrow> string \<Rightarrow> error + 'j" where
  "parser_prediction_response to_float json_dumps response =
     (case parse_loop to_float response KEYS [] of
        Inl e \<Rightarrow> Inl e
      | Inr results \<Rightarrow> Inr (json_dumps results))"

text \<open>
  A field of the response written out in full: the first opening tag of the key stands
  after \<open>pre\<close>, then a body without \<open><\<close>, then the closing tag.
\<close>

definition well_formed_field :: "string \<Rightarrow> string \<Rightarrow> string \<Rightarrow> string \<Rightarrow> string \<Rightarrow> bool" where
  "well_formed_field key response pre body post =
     (response = pre @ open_tag key @ body @ close_tag key @ post \<and>
      \<not> sublist (open_tag key) pre \<and> CHR ''<'' \<notin> set body)"

subsection \<open>Sample responses\<close>

text \<open>
  \<open>float\<close> on the literals of the examples (every other string the examples pass to
  it, such as \<open>high\<close> or \<open>abc\<close>, is one on which \<open>float\<close> raises), and the dictionary itself
  standing for its JSON text.
\<close>

definition sample_float :: "string \<Rightarrow> real option" where
  "sample_float s =
     (if s = ''0.7'' then Some (7 / 10)
      else if s = ''0.3'' then Some (3 / 10)
      else if s = ''0.8'' then Some (8 / 10)
      else if s = ''0.9'' then Some (9 / 10)
      else None)"

definition sample_dumps :: "(string \<times> real) list \<Rightarrow> (string \<times> real) list" where
  "sample_dumps results = results"

definition good_response :: string where
  "good_response =
     ''<p_yes>0.7</p_yes><p_no>0.3</p_no><info_utility>0.8</info_utility><confidence>0.9</confidence>''"

definition no_confidence_response :: string where
  "no_confidence_response = ''<p_yes>0.7</p_yes><p_no>0.3</p_no><info_utility>0.8</info_utility>''"

definition unclosed_response :: string where
  "unclosed_response =
     ''<p_yes>0.7</p_yes><p_no>0.3</p_no><info_utility>0.8</info_utility><confidence>0.9''"

definition bad_number_response :: string where
  "bad_number_response =
     ''<p_yes>high</p_yes><p_no>0.3</p_no><info_utility>0.8</info_utility><confidence>0.9</confidence>''"

definition two_failures_response :: string where
  "two_failures_response = ''<p_yes>abc''"

section \<open>Verified properties\<close>

subsection \<open>Whitespace splitting and joining\<close>

lemma split_ws_Nil [simp]: "split_ws [] = []"
  by (simp add: split_ws.simps)




lemma isspace_space [simp]: "isspace CHR '' ''"
  by (simp add: isspace_def)




subsection \<open>The document selector\<close>




lemma fst_set_dict_set: "fst ` set (dict_set d k v) = insert k (fst ` set d)"
proof (induction d)
  case Nil
  show ?case by simp
next
  case (Cons p d)
  obtain k' v' where p: "p = (k', v')" by (cases p)
  show ?case using Cons by (cases "k' = k") (simp_all add: p insert_commute)
qed

lemma fst_set_word_counts_foldl:
  "fst ` set (foldl (\<lambda>d doc. dict_set d (url doc) (count_words (doc_text doc))) acc docs)
     = fst ` set acc \<union> url ` set docs"
  by (induction docs arbitrary: acc) (auto simp: fst_set_dict_set)

lemma wc_get_defined: "d \<in> set docs \<Longrightarrow> map_of (word_counts docs) (url d) \<noteq> None"
proof -
  assume "d \<in> set docs"
  then have "url d \<in> fst ` set (word_counts docs)"
    by (simp add: word_counts_def fst_set_word_counts_foldl)
  then show ?thesis by (simp add: map_of_eq_None_iff)
qed










lemma url_truncate_doc [simp]: "url (truncate_doc wc d) = url d"
  by (simp add: truncate_doc_def)


















subsection \<open>The selector on sample documents\<close>









subsection \<open>Separators, quotes and tags\<close>

lemma split_on_not_Nil [simp]: "split_on sep s \<noteq> []"
  by (induction sep s rule: split_on.induct) (auto split: list.splits)

lemma join_Cons_Cons: "join sep ((c # p) # ps) = c # join sep (p # ps)"
  by (cases ps) simp_all

lemma join_Nil_Cons: "xs \<noteq> [] \<Longrightarrow> join sep ([] # xs) = sep @ join sep xs"
  by (cases xs) simp_all

lemma join_split_on: "join sep (split_on sep s) = s"
proof (induction sep s rule: split_on.induct)
  case (1 sep)
  show ?case by simp
next
  case (2 sep c cs)
  show ?case
  proof (cases "sep \<noteq> [] \<and> prefix sep (c # cs)")
    case True
    then have "sep @ drop (length sep) (c # cs) = c # cs"
      by (metis append_eq_conv_conj prefixE)
    with True "2.IH"(1) show ?thesis by (simp add: join_Nil_Cons)
  next
    case False
    obtain p ps where sp: "split_on sep cs = p # ps"
      by (cases "split_on sep cs") simp_all
    have "join sep (split_on sep cs) = cs" using False "2.IH"(2) by blast
    with False sp show ?thesis by (auto simp: join_Cons_Cons)
  qed
qed

lemma split_on_no_occurrence: "\<not> sublist sep s \<Longrightarrow> split_on sep s = [s]"
proof (induction s)
  case Nil
  show ?case by simp
next
  case (Cons c cs)
  then have np: "\<not> prefix sep (c # cs)" and ns: "\<not> sublist sep cs"
    by (auto simp: sublist_Cons_right)
  with Cons.IH show ?case by simp
qed

lemma split_on_first:
  assumes "sep \<noteq> []" "hd sep \<notin> set pre"
  shows "split_on sep (pre @ sep @ rest) = pre # split_on sep rest"
  using assms(2)
proof (induction pre)
  case Nil
  have "prefix sep (sep @ rest)" by simp
  moreover obtain a as where "sep = a # as" using assms(1) by (cases sep) auto
  ultimately show ?case by simp
next
  case (Cons c pre)
  have "\<not> prefix sep (c # pre @ sep @ rest)"
    using Cons.prems assms(1) by (cases sep) auto
  with Cons show ?case by simp
qed

lemma no_quote_remove_quotes: "CHR 0x22 \<notin> set (remove_quotes s)"
  by (simp add: remove_quotes_def)

lemma set_strip_tags: "set (strip_tags s) \<subseteq> set s"
proof (induction s rule: strip_tags.induct)
  case 1
  show ?case by simp
next
  case (2 c cs)
  show ?case
  proof (cases "c = CHR ''<'' \<and> CHR ''>'' \<in> set cs")
    case True
    have "set (drop 1 (dropWhile (\<lambda>x. x \<noteq> CHR ''>'') cs)) \<subseteq> set cs"
      by (meson set_drop_subset set_dropWhileD subsetI subset_trans)
    with True "2.IH"(1) show ?thesis by auto
  next
    case False
    with "2.IH"(2) show ?thesis by auto
  qed
qed

lemma no_tag_strip_tags: "\<not> has_tag (strip_tags s)"
proof (induction s rule: strip_tags.induct)
  case 1
  show ?case by simp
next
  case (2 c cs)
  show ?case
  proof (cases "c = CHR ''<'' \<and> CHR ''>'' \<in> set cs")
    case True
    with "2.IH"(1) show ?thesis by simp
  next
    case False
    have "CHR ''>'' \<in> set (strip_tags cs) \<Longrightarrow> CHR ''>'' \<in> set cs"
      using set_strip_tags [of cs] by blast
    with False "2.IH"(2) show ?thesis by auto
  qed
qed

lemma has_tag_iff:
  "has_tag s \<longleftrightarrow>
     (\<exists>pre mid post. s = pre @ CHR ''<'' # mid @ CHR ''>'' # post \<and> CHR ''>'' \<notin> set mid)"
proof
  assume "has_tag s"
  then show "\<exists>pre mid post. s = pre @ CHR ''<'' # mid @ CHR ''>'' # post \<and> CHR ''>'' \<notin> set mid"
  proof (induction s)
    case Nil
    then show ?case by simp
  next
    case (Cons c cs)
    show ?case
    proof (cases "c = CHR ''<'' \<and> CHR ''>'' \<in> set cs")
      case True
      then obtain mid post where "cs = mid @ CHR ''>'' # post" "CHR ''>'' \<notin> set mid"
        by (auto dest: split_list_first)
      with True have "c # cs = [] @ CHR ''<'' # mid @ CHR ''>'' # post \<and> CHR ''>'' \<notin> set mid"
        by simp
      then show ?thesis by blast
    next
      case False
      with Cons.prems have "has_tag cs" by auto
      from Cons.IH [OF this] obtain pre mid post
        where "cs = pre @ CHR ''<'' # mid @ CHR ''>'' # post" "CHR ''>'' \<notin> set mid" by blast
      then have "c # cs = (c # pre) @ CHR ''<'' # mid @ CHR ''>'' # post \<and> CHR ''>'' \<notin> set mid"
        by simp
      then show ?thesis by blast
    qed
  qed
next
  assume "\<exists>pre mid post. s = pre @ CHR ''<'' # mid @ CHR ''>'' # post \<and> CHR ''>'' \<notin> set mid"
  then obtain pre mid post where s: "s = pre @ CHR ''<'' # mid @ CHR ''>'' # post" by blast
  show "has_tag s" unfolding s by (induction pre) auto
qed

lemma set_remove_quotes: "set (remove_quotes s) \<subseteq> set s"
  by (auto simp: remove_quotes_def)

lemma final_query_clean:
  "CHR 0x22 \<notin> set (final_query e) \<and> \<not> has_tag (final_query e)"
  using set_strip_tags [of "remove_quotes e"] no_quote_remove_quotes [of e]
  by (auto simp: final_query_def no_tag_strip_tags)

subsection \<open>The query parser\<close>

lemma parsed_queries_not_empty: "q \<in> set (parsed_queries queries) \<Longrightarrow> q \<noteq> []"
  by (auto simp: parsed_queries_def)

lemma enhance_query_not_empty: "q \<noteq> [] \<Longrightarrow> \<exists>e. enhance_query q = Inr e"
  by (cases q) (simp_all add: enhance_query_def)

lemma enhance_loop_Inr:
  "\<forall>q\<in>set qs. q \<noteq> [] \<Longrightarrow>
   \<exists>es. enhance_loop qs acc = Inr (acc @ es) \<and> length es = length qs \<and>
        (\<forall>i<length qs. enhance_query (qs ! i) = Inr (es ! i))"
proof (induction qs arbitrary: acc)
  case Nil
  show ?case by simp
next
  case (Cons q qs)
  then obtain e where e: "enhance_query q = Inr e"
    using enhance_query_not_empty [of q] by auto
  from Cons.IH [of "acc @ [e]"] Cons.prems obtain es
    where es: "enhance_loop qs (acc @ [e]) = Inr ((acc @ [e]) @ es)" "length es = length qs"
      "\<forall>i<length qs. enhance_query (qs ! i) = Inr (es ! i)" by auto
  have "\<forall>i<length (q # qs). enhance_query ((q # qs) ! i) = Inr ((e # es) ! i)"
    using e es(3) by (auto simp: nth_Cons split: nat.splits)
  then show ?case using e es(1,2) by (intro exI [of _ "e # es"]) simp
qed

lemma length_every_other: "length (every_other xs) = (length xs + 1) div 2"
  by (induction xs rule: every_other.induct) simp_all

lemma nth_every_other: "i < length (every_other xs) \<Longrightarrow> every_other xs ! i = xs ! (2 * i)"
proof (induction xs arbitrary: i rule: every_other.induct)
  case 1
  then show ?case by simp
next
  case (2 x)
  then show ?case by simp
next
  case (3 x y xs)
  then show ?case by (cases i) simp_all
qed

lemma parser_query_response_nth:
  assumes raw: "raw_queries response = Inr queries"
  shows "\<exists>qs. parser_query_response response n = Inr qs \<and>
     (if int (length (parsed_queries queries)) = n * 2
      then int (length qs) = n \<and>
           (\<forall>i<length qs. \<exists>e. enhance_query (parsed_queries queries ! (2 * i)) = Inr e
                               \<and> qs ! i = final_query e)
      else length qs = length (parsed_queries queries) \<and>
           (\<forall>i<length qs. \<exists>e. enhance_query (parsed_queries queries ! i) = Inr e
                               \<and> qs ! i = final_query e))"
proof -
  let ?P = "parsed_queries queries"
  from enhance_loop_Inr [of ?P "[]"] parsed_queries_not_empty obtain es
    where es: "enhance_loop ?P [] = Inr es" "length es = length ?P"
      "\<forall>i<length ?P. enhance_query (?P ! i) = Inr (es ! i)" by auto
  show ?thesis
  proof (cases "int (length ?P) = n * 2")
    case True
    let ?qs = "map final_query (every_other es)"
    have res: "parser_query_response response n = Inr ?qs"
      using raw es(1,2) True by (simp add: parser_query_response_def)
    have len: "int (length ?qs) = n"
      using True es(2) by (simp add: length_every_other)
    have "\<exists>e. enhance_query (?P ! (2 * i)) = Inr e \<and> ?qs ! i = final_query e"
      if "i < length ?qs" for i
    proof -
      from that have i: "i < length (every_other es)" by simp
      then have "2 * i < length ?P" using es(2) by (simp add: length_every_other)
      with es(3) have "enhance_query (?P ! (2 * i)) = Inr (es ! (2 * i))" by simp
      moreover have "?qs ! i = final_query (es ! (2 * i))"
        using i by (simp add: nth_every_other)
      ultimately show ?thesis by blast
    qed
    with res len True show ?thesis by auto
  next
    case False
    let ?qs = "map final_query es"
    have res: "parser_query_response response n = Inr ?qs"
      using raw es(1,2) False by (simp add: parser_query_response_def)
    have "\<exists>e. enhance_query (?P ! i) = Inr e \<and> ?qs ! i = final_query e"
      if "i < length ?qs" for i
      using that es(2,3) by simp
    with res False es(2) show ?thesis by auto
  qed
qed

subsection \<open>Claims about the query generator\<close>

lemmas query_eval =
  parser_query_response_def raw_queries_def parsed_queries_def strip_def isspace_def
  enhance_query_def isdigit_def strip_ordinal_def remove_quotes_def final_query_def



text \<open>
  Claim C5. When the number of cleaned lines is exactly twice \<open>num_queries\<close>, the
  parser returns \<open>num_queries\<close> entries, the entry at index \<open>i\<close> coming from the cleaned
  line at index \<open>2 * i\<close>; for any other count it returns one entry per cleaned line, in
  order. (The parser returns whenever the opening tag is present.)
\<close>

theorem parser_query_response_even_entries:
  assumes "raw_queries response = Inr queries"
  shows "\<exists>qs. parser_query_response response n = Inr qs \<and>
     (if int (length (parsed_queries queries)) = n * 2
      then int (length qs) = n \<and>
           (\<forall>i<length qs. \<exists>e. enhance_query (parsed_queries queries ! (2 * i)) = Inr e
                               \<and> qs ! i = final_query e)
      else length qs = length (parsed_queries queries) \<and>
           (\<forall>i<length qs. \<exists>e. enhance_query (parsed_queries queries ! i) = Inr e
                               \<and> qs ! i = final_query e))"
  using assms by (rule parser_query_response_nth)


theorem parser_query_response_even_entries_witness:
  "raw_queries paired_answer = Inr [[], ''a'', ''b'', ''c'', ''d'', []] \<and>
   int (length (parsed_queries [[], ''a'', ''b'', ''c'', ''d'', []])) = 2 * 2 \<and>
   (\<exists>qs. parser_query_response paired_answer 2 = Inr qs \<and> int (length qs) = 2) \<and>
   parser_query_response paired_answer 2 = Inr [''a'', ''c''] \<and>
   parser_query_response paired_answer 5 = Inr [''a'', ''b'', ''c'', ''d'']"
proof -
  have h: "raw_queries paired_answer = Inr [[], ''a'', ''b'', ''c'', ''d'', []]"
    by (simp add: paired_answer_def raw_queries_def)
  have cnt: "int (length (parsed_queries [[], ''a'', ''b'', ''c'', ''d'', []])) = 2 * 2"
    by (simp add: parsed_queries_def strip_def isspace_def)
  from parser_query_response_even_entries [OF h, of 2] cnt
  have ex: "\<exists>qs. parser_query_response paired_answer 2 = Inr qs \<and> int (length qs) = 2"
    by auto
  have e2: "parser_query_response paired_answer 2 = Inr [''a'', ''c'']"
    by (simp add: paired_answer_def query_eval)
  have e5: "parser_query_response paired_answer 5 = Inr [''a'', ''b'', ''c'', ''d'']"
    by (simp add: paired_answer_def query_eval)
  from h cnt ex e2 e5 show ?thesis by blast
qed

lemma strip_ordinal_prefix:
  assumes "CHR ''.'' \<notin> set ds"
  shows "strip_ordinal (ds @ ''. '' @ rest) = rest"
proof -
  have "split_on ''. '' (ds @ ''. '' @ rest) = ds # split_on ''. '' rest"
    using assms by (intro split_on_first) simp_all
  then show ?thesis by (simp add: strip_ordinal_def join_split_on)
qed

lemma enhance_query_ordinal:
  assumes "ds \<noteq> []" "\<forall>c\<in>set ds. isdigit c"
  shows "enhance_query (ds @ ''. '' @ rest) = Inr (remove_quotes rest)"
proof -
  obtain d ds' where ds: "ds = d # ds'" using assms(1) by (cases ds) auto
  have "\<not> isdigit CHR ''.''" by (simp add: isdigit_def)
  then have "CHR ''.'' \<notin> set ds" using assms(2) by blast
  then have "strip_ordinal (ds @ ''. '' @ rest) = rest" by (rule strip_ordinal_prefix)
  moreover have "isdigit d" using assms(2) ds by simp
  ultimately show ?thesis by (simp add: enhance_query_def ds)
qed

lemma remove_quotes_idem: "remove_quotes (remove_quotes s) = remove_quotes s"
  by (simp add: remove_quotes_def)

text \<open>
  Claim C6. The parser returns whenever the opening tag is present. Every returned
  query contains no double quote and no substring matching \<open><[^>]*>\<close>, and is
  \<open>final_query e\<close> for the result \<open>e\<close> of the loop body on a surviving line. On a
  surviving line of the form digits, \<open>". "\<close>, rest, the loop body yields the rest without
  its double quotes, so the returned query is the rest without quotes and tags.
\<close>

theorem parser_query_response_cleans:
  assumes "raw_queries response = Inr queries"
  shows "\<exists>qs. parser_query_response response n = Inr qs \<and>
     (\<forall>q\<in>set qs. CHR 0x22 \<notin> set q \<and> \<not> has_tag q \<and>
         (\<exists>l\<in>set (parsed_queries queries). \<exists>e. enhance_query l = Inr e \<and> q = final_query e)) \<and>
     (\<forall>ds rest. ds \<noteq> [] \<and> (\<forall>c\<in>set ds. isdigit c) \<longrightarrow>
         enhance_query (ds @ ''. '' @ rest) = Inr (remove_quotes rest) \<and>
         final_query (remove_quotes rest) = strip_tags (remove_quotes rest))"
proof -
  let ?P = "parsed_queries queries"
  from parser_query_response_nth [OF assms, of n] obtain qs
    where res: "parser_query_response response n = Inr qs"
      and nth: "if int (length ?P) = n * 2
        then int (length qs) = n \<and>
           (\<forall>i<length qs. \<exists>e. enhance_query (?P ! (2 * i)) = Inr e \<and> qs ! i = final_query e)
        else length qs = length ?P \<and>
           (\<forall>i<length qs. \<exists>e. enhance_query (?P ! i) = Inr e \<and> qs ! i = final_query e)"
    by blast
  have src: "\<exists>l\<in>set ?P. \<exists>e. enhance_query l = Inr e \<and> q = final_query e"
    if q: "q \<in> set qs" for q
  proof -
    from q obtain i where i: "i < length qs" "qs ! i = q" by (auto simp: in_set_conv_nth)
    show ?thesis
    proof (cases "int (length ?P) = n * 2")
      case True
      with nth i obtain e where e: "enhance_query (?P ! (2 * i)) = Inr e" "q = final_query e"
        by auto
      from True nth i have "2 * i < length ?P" by auto
      then have "?P ! (2 * i) \<in> set ?P" by simp
      with e show ?thesis by blast
    next
      case False
      with nth i obtain e where e: "enhance_query (?P ! i) = Inr e" "q = final_query e"
        by auto
      from False nth i have "?P ! i \<in> set ?P" by simp
      with e show ?thesis by blast
    qed
  qed
  have clean: "CHR 0x22 \<notin> set q \<and> \<not> has_tag q" if "q \<in> set qs" for q
    using src [OF that] final_query_clean by blast
  have ord: "enhance_query (ds @ ''. '' @ rest) = Inr (remove_quotes rest) \<and>
         final_query (remove_quotes rest) = strip_tags (remove_quotes rest)"
    if "ds \<noteq> [] \<and> (\<forall>c\<in>set ds. isdigit c)" for ds rest
  proof
    from that show "enhance_query (ds @ ''. '' @ rest) = Inr (remove_quotes rest)"
      by (intro enhance_query_ordinal) auto
    show "final_query (remove_quotes rest) = strip_tags (remove_quotes rest)"
      by (simp add: final_query_def remove_quotes_idem)
  qed
  from res src clean ord show ?thesis by blast
qed

theorem parser_query_response_cleans_witness:
  "raw_queries tagged_answer
     = Inr [[], ''1. '' @ [CHR 0x22] @ ''foo'' @ [CHR 0x22] @ '' <b>bar</b>'', []] \<and>
   (\<exists>qs. parser_query_response tagged_answer 5 = Inr qs \<and>
         list_all (\<lambda>q. CHR 0x22 \<notin> set q \<and> \<not> has_tag q) qs) \<and>
   parser_query_response tagged_answer 5 = Inr [''foo bar''] \<and>
   parser_query_response sample_answer 5 = Inr [''foo'', ''bar'']"
proof -
  have h: "raw_queries tagged_answer
     = Inr [[], ''1. '' @ [CHR 0x22] @ ''foo'' @ [CHR 0x22] @ '' <b>bar</b>'', []]"
    by (simp add: tagged_answer_def raw_queries_def)
  from parser_query_response_cleans [OF h, of 5]
  have ex: "\<exists>qs. parser_query_response tagged_answer 5 = Inr qs \<and>
         list_all (\<lambda>q. CHR 0x22 \<notin> set q \<and> \<not> has_tag q) qs"
    unfolding list_all_iff by blast
  have e: "parser_query_response tagged_answer 5 = Inr [''foo bar'']"
    by (simp add: tagged_answer_def query_eval)
  have e2: "parser_query_response sample_answer 5 = Inr [''foo'', ''bar'']"
    by (simp add: sample_answer_def query_eval)
  from h ex e e2 show ?thesis by blast
qed

lemma enhance_query_no_separator:
  assumes "isdigit c" "\<not> sublist ''. '' (c # t)"
  shows "enhance_query (c # t) = Inr []"
proof -
  have sp: "split_on ''. '' (c # t) = [c # t]"
    using assms(2) by (rule split_on_no_occurrence)
  have "strip_ordinal (c # t) = []"
    unfolding strip_ordinal_def sp by simp
  then show ?thesis using assms(1) by (simp add: enhance_query_def remove_quotes_def)
qed

lemma final_query_Nil [simp]: "final_query [] = []"
  by (simp add: final_query_def remove_quotes_def)

text \<open>
  Claim C10, as amended. A surviving line that begins with a digit and contains no
  \<open>". "\<close> is turned into the empty string by the loop body, and no later step removes
  empty strings: when the number of cleaned lines differs from twice \<open>num_queries\<close> the
  returned list has the empty string at the index of the line, and when it equals twice
  \<open>num_queries\<close> and the index of the line is even, at half that index.
\<close>

theorem parser_query_response_keeps_empty:
  assumes raw: "raw_queries response = Inr queries"
    and i: "i < length (parsed_queries queries)"
    and line: "parsed_queries queries ! i = c # t"
    and digit: "isdigit c"
    and nosep: "\<not> sublist ''. '' (c # t)"
  shows "enhance_query (parsed_queries queries ! i) = Inr [] \<and>
     (\<exists>qs. parser_query_response response n = Inr qs \<and>
        (if int (length (parsed_queries queries)) = n * 2
         then even i \<longrightarrow> i div 2 < length qs \<and> qs ! (i div 2) = []
         else i < length qs \<and> qs ! i = []))"
proof -
  let ?P = "parsed_queries queries"
  have enh: "enhance_query (?P ! i) = Inr []"
    using digit nosep by (simp add: line enhance_query_no_separator)
  from parser_query_response_nth [OF raw, of n] obtain qs
    where res: "parser_query_response response n = Inr qs"
      and nth: "if int (length ?P) = n * 2
        then int (length qs) = n \<and>
           (\<forall>i<length qs. \<exists>e. enhance_query (?P ! (2 * i)) = Inr e \<and> qs ! i = final_query e)
        else length qs = length ?P \<and>
           (\<forall>i<length qs. \<exists>e. enhance_query (?P ! i) = Inr e \<and> qs ! i = final_query e)"
    by blast
  have "if int (length ?P) = n * 2
         then even i \<longrightarrow> i div 2 < length qs \<and> qs ! (i div 2) = []
         else i < length qs \<and> qs ! i = []"
  proof (cases "int (length ?P) = n * 2")
    case True
    have "i div 2 < length qs \<and> qs ! (i div 2) = []" if ev: "even i"
    proof -
      from ev have i2: "2 * (i div 2) = i" by simp
      from True nth have "int (length qs) = n" by simp
      with True i have lt: "i div 2 < length qs" by linarith
      with True nth obtain e where "enhance_query (?P ! (2 * (i div 2))) = Inr e"
        "qs ! (i div 2) = final_query e" by auto
      with enh i2 lt show ?thesis by simp
    qed
    with True show ?thesis by simp
  next
    case False
    with nth i have lt: "i < length qs" by simp
    with False nth obtain e where "enhance_query (?P ! i) = Inr e" "qs ! i = final_query e"
      by auto
    with enh lt False show ?thesis by simp
  qed
  with enh res show ?thesis by blast
qed

theorem parser_query_response_keeps_empty_witness:
  "raw_queries dated_answer = Inr [[], ''foo'', ''2024 election results'', []] \<and>
   parsed_queries [[], ''foo'', ''2024 election results'', []]
     = [''foo'', ''2024 election results''] \<and>
   isdigit CHR ''2'' \<and>
   \<not> sublist ''. '' ''2024 election results'' \<and>
   enhance_query ''2024 election results'' = Inr [] \<and>
   (\<exists>qs. parser_query_response dated_answer 5 = Inr qs \<and> 1 < length qs \<and> qs ! 1 = []) \<and>
   parser_query_response dated_answer 5 = Inr [''foo'', []]"
proof -
  let ?qs = "[[], ''foo'', ''2024 election results'', []]"
  have h: "raw_queries dated_answer = Inr ?qs"
    by (simp add: dated_answer_def raw_queries_def)
  have p: "parsed_queries ?qs = [''foo'', ''2024 election results'']"
    by (simp add: parsed_queries_def strip_def isspace_def)
  have i: "1 < length (parsed_queries ?qs)" by (simp add: p)
  have l: "parsed_queries ?qs ! 1 = CHR ''2'' # ''024 election results''" by (simp add: p)
  have d: "isdigit CHR ''2''" by (simp add: isdigit_def)
  have s: "\<not> sublist ''. '' (CHR ''2'' # ''024 election results'')"
    by (simp add: sublist_Cons_right)
  have cnt: "int (length (parsed_queries ?qs)) \<noteq> 5 * 2" by (simp add: p)
  from parser_query_response_keeps_empty [OF h i l d s, of 5] cnt l
  have k: "enhance_query ''2024 election results'' = Inr [] \<and>
     (\<exists>qs. parser_query_response dated_answer 5 = Inr qs \<and> 1 < length qs \<and> qs ! 1 = [])"
    by auto
  have e: "parser_query_response dated_answer 5 = Inr [''foo'', []]"
    by (simp add: dated_answer_def query_eval)
  from h p d s k e show ?thesis by simp
qed

text \<open>
  With \<open>num_queries = 1\<close> the two cleaned lines are taken for paired output: the line
  \<open>2024 election results\<close>, at index 1, is dropped, and no empty string is returned.
\<close>

theorem parser_query_response_drops_empty_counterexample:
  "raw_queries dated_answer = Inr [[], ''foo'', ''2024 election results'', []] \<and>
   parsed_queries [[], ''foo'', ''2024 election results'', []]
     = [''foo'', ''2024 election results''] \<and>
   enhance_query ''2024 election results'' = Inr [] \<and>
   parser_query_response dated_answer 1 = Inr [''foo''] \<and>
   [] \<notin> set [''foo'']"
  by (simp add: dated_answer_def query_eval)

subsection \<open>The content extractor\<close>

lemma concat_batches: "0 < window \<Longrightarrow> concat (batches window xs) = xs"
proof (induction window xs rule: batches.induct)
  case (1 window urls)
  show ?case
  proof (cases "urls = []")
    case True
    then show ?thesis by (simp add: batches.simps)
  next
    case False
    with 1 have "concat (batches window (drop window urls)) = drop window urls" by simp
    with False "1.prems" show ?thesis
      by (subst batches.simps) simp
  qed
qed

lemma concat_map_concat:
  "concat (map (\<lambda>b. concat (map f b)) bs) = concat (map f (concat bs))"
  by (induction bs) simp_all

lemma extract_texts_flat:
  "extract_texts w urls nw =
     concat (map (\<lambda>u. process_future w nw (submit_loop (submit_raises w u) 0 HTTP_MAX_RETIES, u))
               urls)"
proof -
  let ?g = "\<lambda>u. (submit_loop (submit_raises w u) 0 HTTP_MAX_RETIES, u)"
  have "concat (process_in_batches w urls 5 HTTP_MAX_RETIES) = map ?g urls"
    by (simp add: process_in_batches_def map_concat [symmetric] concat_batches)
  then show ?thesis
    by (simp add: extract_texts_def concat_map_concat comp_def)
qed

lemma process_future_member:
  "x \<in> set (process_future w nw (b, u)) \<longleftrightarrow>
     (b \<and> (\<exists>r. get_result w u = Inr r \<and> x \<in> set (process_result w nw u r)))"
  by (cases b; cases "get_result w u") (simp_all add: process_future_def)

lemma extract_texts_member:
  "x \<in> set (extract_texts w urls nw) \<longleftrightarrow>
     (\<exists>u\<in>set urls. submit_loop (submit_raises w u) 0 HTTP_MAX_RETIES \<and>
         (\<exists>r. get_result w u = Inr r \<and> x \<in> set (process_result w nw u r)))"
  by (simp add: extract_texts_flat process_future_member)

lemma process_result_pdf:
  assumes "status_code r = 200" "endswith u ''.pdf'' \<or> take 4 (resp_content r) = ''%PDF''"
  shows "process_result w nw u r =
     (case extract_text_from_pdf (pdf_get w) u nw of
        PdfDoc doc \<Rightarrow> [Doc (doc\<lparr>url := u\<rparr>)]
      | PdfValueError m \<Rightarrow> [ValueErrorObject m u]
      | PdfNone \<Rightarrow> [])"
  using assms by (simp add: process_result_def)

lemma process_result_html:
  assumes "status_code r = 200" "\<not> (endswith u ''.pdf'' \<or> take 4 (resp_content r) = ''%PDF'')"
  shows "process_result w nw u r =
     (case extract_text (html_markdown w) (resp_text r) nw of
        Inl e \<Rightarrow> []
      | Inr None \<Rightarrow> []
      | Inr (Some doc) \<Rightarrow> [Doc (doc\<lparr>url := u\<rparr>)])"
  using assms by (simp add: process_result_def)

lemma process_result_status: "status_code r \<noteq> 200 \<Longrightarrow> process_result w nw u r = []"
  by (simp add: process_result_def)

lemma process_result_Doc:
  assumes "Doc d \<in> set (process_result w nw u r)"
  shows "url d = u \<and> status_code r = 200 \<and>
     (if endswith u ''.pdf'' \<or> take 4 (resp_content r) = ''%PDF''
      then \<exists>d'. extract_text_from_pdf (pdf_get w) u nw = PdfDoc d' \<and> d = d'\<lparr>url := u\<rparr>
      else \<exists>d'. extract_text (html_markdown w) (resp_text r) nw = Inr (Some d')
                 \<and> d = d'\<lparr>url := u\<rparr>)"
proof -
  have st: "status_code r = 200"
    using assms process_result_status [of r w nw u] by force
  show ?thesis
  proof (cases "endswith u ''.pdf'' \<or> take 4 (resp_content r) = ''%PDF''")
    case True
    show ?thesis
    proof (cases "extract_text_from_pdf (pdf_get w) u nw")
      case (PdfDoc d')
      with assms st True show ?thesis by (simp add: process_result_pdf)
    next
      case (PdfValueError m)
      with assms st True show ?thesis by (simp add: process_result_pdf)
    next
      case PdfNone
      with assms st True show ?thesis by (simp add: process_result_pdf)
    qed
  next
    case False
    show ?thesis
    proof (cases "extract_text (html_markdown w) (resp_text r) nw")
      case (Inl e)
      with assms st False show ?thesis by (simp add: process_result_html)
    next
      case (Inr od)
      show ?thesis
      proof (cases od)
        case None
        with assms st False Inr show ?thesis by (simp add: process_result_html)
      next
        case (Some d')
        with assms st False Inr show ?thesis by (simp add: process_result_html)
      qed
    qed
  qed
qed

text \<open>
  Claim C7. A document in the result of \<open>extract_texts\<close> belongs to a URL of the input
  whose response has status 200, and it is the document of the PDF extraction when the
  URL ends in \<open>.pdf\<close> or the body starts with \<open>%PDF\<close>, and the document of the HTML
  extraction otherwise, with the URL set. Conversely, for a URL of the input with a
  future and a response of status 200, the document of the branch so chosen is in the
  result. When the PDF extraction of a URL routed to it yields no document, the result
  holds no document of that URL. \<open>extract_texts\<close> has no error result: whatever the
  collaborators raise for a URL, it returns its list.
\<close>

theorem extract_texts_routing:
  "(\<forall>d. Doc d \<in> set (extract_texts w urls nw) \<longrightarrow>
      url d \<in> set urls \<and>
      (\<exists>r. get_result w (url d) = Inr r \<and> status_code r = 200 \<and>
         (if endswith (url d) ''.pdf'' \<or> take 4 (resp_content r) = ''%PDF''
          then \<exists>d'. extract_text_from_pdf (pdf_get w) (url d) nw = PdfDoc d'
                    \<and> d = d'\<lparr>url := url d\<rparr>
          else \<exists>d'. extract_text (html_markdown w) (resp_text r) nw = Inr (Some d')
                    \<and> d = d'\<lparr>url := url d\<rparr>))) \<and>
   (\<forall>u r. u \<in> set urls \<and> submit_loop (submit_raises w u) 0 HTTP_MAX_RETIES \<and>
          get_result w u = Inr r \<and> status_code r = 200 \<longrightarrow>
      (if endswith u ''.pdf'' \<or> take 4 (resp_content r) = ''%PDF''
       then \<forall>d'. extract_text_from_pdf (pdf_get w) u nw = PdfDoc d' \<longrightarrow>
                 Doc (d'\<lparr>url := u\<rparr>) \<in> set (extract_texts w urls nw)
       else \<forall>d'. extract_text (html_markdown w) (resp_text r) nw = Inr (Some d') \<longrightarrow>
                 Doc (d'\<lparr>url := u\<rparr>) \<in> set (extract_texts w urls nw))) \<and>
   (\<forall>u r. get_result w u = Inr r \<and>
          (endswith u ''.pdf'' \<or> take 4 (resp_content r) = ''%PDF'') \<and>
          (\<forall>d'. extract_text_from_pdf (pdf_get w) u nw \<noteq> PdfDoc d') \<longrightarrow>
      (\<forall>d. Doc d \<in> set (extract_texts w urls nw) \<longrightarrow> url d \<noteq> u))"
proof (intro conjI allI impI)
  fix d assume d: "Doc d \<in> set (extract_texts w urls nw)"
  then obtain u r where u: "u \<in> set urls" "get_result w u = Inr r"
      "Doc d \<in> set (process_result w nw u r)"
    by (auto simp: extract_texts_member)
  from process_result_Doc [OF u(3)] have ud: "url d = u" by simp
  show "url d \<in> set urls" using u(1) ud by simp
  show "\<exists>r. get_result w (url d) = Inr r \<and> status_code r = 200 \<and>
         (if endswith (url d) ''.pdf'' \<or> take 4 (resp_content r) = ''%PDF''
          then \<exists>d'. extract_text_from_pdf (pdf_get w) (url d) nw = PdfDoc d'
                    \<and> d = d'\<lparr>url := url d\<rparr>
          else \<exists>d'. extract_text (html_markdown w) (resp_text r) nw = Inr (Some d')
                    \<and> d = d'\<lparr>url := url d\<rparr>)"
    using process_result_Doc [OF u(3)] u(2) unfolding ud by (intro exI [of _ r]) simp
next
  fix u r
  assume h: "u \<in> set urls \<and> submit_loop (submit_raises w u) 0 HTTP_MAX_RETIES \<and>
          get_result w u = Inr r \<and> status_code r = 200"
  show "if endswith u ''.pdf'' \<or> take 4 (resp_content r) = ''%PDF''
       then \<forall>d'. extract_text_from_pdf (pdf_get w) u nw = PdfDoc d' \<longrightarrow>
                 Doc (d'\<lparr>url := u\<rparr>) \<in> set (extract_texts w urls nw)
       else \<forall>d'. extract_text (html_markdown w) (resp_text r) nw = Inr (Some d') \<longrightarrow>
                 Doc (d'\<lparr>url := u\<rparr>) \<in> set (extract_texts w urls nw)"
  proof (cases "endswith u ''.pdf'' \<or> take 4 (resp_content r) = ''%PDF''")
    case True
    have "Doc (d'\<lparr>url := u\<rparr>) \<in> set (extract_texts w urls nw)"
      if "extract_text_from_pdf (pdf_get w) u nw = PdfDoc d'" for d'
    proof -
      have "Doc (d'\<lparr>url := u\<rparr>) \<in> set (process_result w nw u r)"
        using h True that by (simp add: process_result_pdf)
      with h show ?thesis unfolding extract_texts_member by blast
    qed
    with True show ?thesis by simp
  next
    case False
    have "Doc (d'\<lparr>url := u\<rparr>) \<in> set (extract_texts w urls nw)"
      if "extract_text (html_markdown w) (resp_text r) nw = Inr (Some d')" for d'
    proof -
      have "Doc (d'\<lparr>url := u\<rparr>) \<in> set (process_result w nw u r)"
        using h False that by (simp add: process_result_html)
      with h show ?thesis unfolding extract_texts_member by blast
    qed
    with False show ?thesis by simp
  qed
next
  fix u r d
  assume h: "get_result w u = Inr r \<and>
          (endswith u ''.pdf'' \<or> take 4 (resp_content r) = ''%PDF'') \<and>
          (\<forall>d'. extract_text_from_pdf (pdf_get w) u nw \<noteq> PdfDoc d')"
    and d: "Doc d \<in> set (extract_texts w urls nw)"
  show "url d \<noteq> u"
  proof
    assume ud: "url d = u"
    from d obtain u' r' where u': "get_result w u' = Inr r'"
        "Doc d \<in> set (process_result w nw u' r')"
      by (auto simp: extract_texts_member)
    from process_result_Doc [OF u'(2)] ud have eq: "u' = u" by simp
    with u'(1) h have "r' = r" by simp
    with process_result_Doc [OF u'(2)] eq h show False by auto
  qed
qed

lemma sample_extract_texts:
  "extract_texts sample_web sample_urls None =
     [Doc \<lparr>doc_text = ''a  b c'', url = ''http://b/y'', embedding = None\<rparr>,
      Doc \<lparr>doc_text = ''one two'', url = ''http://e/h'', embedding = None\<rparr>]"
  by code_simp

lemma sample_pdf_failure:
  "endswith ''http://a/x.pdf'' ''.pdf'' \<and>
   extract_text_from_pdf sample_pdf_get ''http://a/x.pdf'' None = PdfNone \<and>
   \<not> endswith ''http://b/y'' ''.pdf'' \<and> take 4 ''%PDF-1.4'' = ''%PDF''"
  by code_simp

theorem extract_texts_routing_witness:
  "extract_texts sample_web sample_urls None =
     [Doc \<lparr>doc_text = ''a  b c'', url = ''http://b/y'', embedding = None\<rparr>,
      Doc \<lparr>doc_text = ''one two'', url = ''http://e/h'', embedding = None\<rparr>] \<and>
   (\<exists>r. get_result sample_web ''http://b/y'' = Inr r \<and> status_code r = 200) \<and>
   endswith ''http://a/x.pdf'' ''.pdf'' \<and>
   extract_text_from_pdf sample_pdf_get ''http://a/x.pdf'' None = PdfNone \<and>
   \<not> endswith ''http://b/y'' ''.pdf'' \<and> take 4 ''%PDF-1.4'' = ''%PDF''"
proof -
  let ?d = "\<lparr>doc_text = ''a  b c'', url = ''http://b/y'', embedding = None\<rparr>"
  have m: "Doc ?d \<in> set (extract_texts sample_web sample_urls None)"
    by (simp add: sample_extract_texts)
  from extract_texts_routing [of sample_web sample_urls None] m
  have "\<exists>r. get_result sample_web (url ?d) = Inr r \<and> status_code r = 200"
    by blast
  then have r: "\<exists>r. get_result sample_web ''http://b/y'' = Inr r \<and> status_code r = 200"
    by simp
  from sample_extract_texts r sample_pdf_failure show ?thesis by blast
qed

subsection \<open>The word cap\<close>

lemma extract_text_caps_words:
  assumes "md html = Inr (Some t)"
  shows "extract_text md html None
           = Inr (Some \<lparr>doc_text = join '' '' (split_ws t), url = [], embedding = None\<rparr>)"
    and "0 < k \<Longrightarrow> extract_text md html (Some k)
           = Inr (Some \<lparr>doc_text = join '' '' (take (nat k) (split_ws t)), url = [],
                        embedding = None\<rparr>)"
  using assms by (simp_all add: extract_text_def slice_to_def)

lemma extract_text_from_pdf_caps:
  assumes "pg u = Inr r" "sublist ''application/pdf'' (content_type r)"
    "page_texts r = Inr pages"
  shows "extract_text_from_pdf pg u None
           = PdfDoc \<lparr>doc_text = concat pages, url = u, embedding = None\<rparr>"
    and "0 < k \<Longrightarrow> extract_text_from_pdf pg u (Some k)
           = PdfDoc \<lparr>doc_text = take (nat k) (concat pages), url = u, embedding = None\<rparr>"
  using assms by (simp_all add: extract_text_from_pdf_def slice_to_def)

text \<open>
  Claim C8 at a failing input: a PDF whose only page reads \<open>a  b c\<close> (two spaces after
  \<open>a\<close>). With the cap 2 the PDF branch keeps the first two characters, \<open>a \<close>, where the
  HTML branch keeps the first two words, \<open>a b\<close>; without a cap the PDF branch keeps the
  text as it is, where the HTML branch normalises it to \<open>a b c\<close>.
\<close>

theorem extract_text_from_pdf_caps_characters:
  "extract_text_from_pdf sample_pdf_get ''http://b/y'' (Some 2)
     = PdfDoc \<lparr>doc_text = ''a '', url = ''http://b/y'', embedding = None\<rparr> \<and>
   extract_text sample_markdown ''a  b c'' (Some 2)
     = Inr (Some \<lparr>doc_text = ''a b'', url = [], embedding = None\<rparr>) \<and>
   extract_text_from_pdf sample_pdf_get ''http://b/y'' None
     = PdfDoc \<lparr>doc_text = ''a  b c'', url = ''http://b/y'', embedding = None\<rparr> \<and>
   extract_text sample_markdown ''a  b c'' None
     = Inr (Some \<lparr>doc_text = ''a b c'', url = [], embedding = None\<rparr>)"
  by code_simp

subsection \<open>The prediction parser\<close>

lemma split_on_first_occurrence:
  assumes sep: "sep \<noteq> []" and fresh: "hd sep \<notin> set (tl sep)"
    and absent: "\<not> sublist sep pre"
  shows "split_on sep (pre @ sep @ rest) = pre # split_on sep rest"
  using absent
proof (induction pre)
  case Nil
  obtain a as where "sep = a # as" using sep by (cases sep) auto
  then show ?case by simp
next
  case (Cons c pre)
  obtain a as where s: "sep = a # as" using sep by (cases sep) auto
  have np: "\<not> prefix sep (c # pre @ sep @ rest)"
  proof
    assume "prefix sep (c # pre @ sep @ rest)"
    then have "prefix sep ((c # pre) @ (sep @ rest))" by simp
    then consider "prefix sep (c # pre)"
      | us where "sep = (c # pre) @ us" "prefix us (sep @ rest)"
      unfolding prefix_append by blast
    then show False
    proof cases
      case 1
      then have "sublist sep (c # pre)" by (rule prefix_imp_sublist)
      with Cons.prems show False by simp
    next
      case 2
      show False
      proof (cases us)
        case Nil
        with 2(1) have "sublist sep (c # pre)" by simp
        with Cons.prems show False by simp
      next
        case (Cons b bs)
        with 2(2) s have "b = a" by simp
        moreover from 2(1) s Cons have "b \<in> set as" by (cases pre) auto
        ultimately show False using fresh s by simp
      qed
    qed
  qed
  have "\<not> sublist sep pre" using Cons.prems by (auto simp: sublist_Cons_right)
  from Cons.IH [OF this] np show ?case by simp
qed

lemma hd_split_on_skip:
  assumes "sep \<noteq> []" "hd sep \<notin> set pre"
  shows "hd (split_on sep (pre @ rest)) = pre @ hd (split_on sep rest)"
  using assms(2)
proof (induction pre)
  case Nil
  show ?case by simp
next
  case (Cons c pre)
  have np: "\<not> prefix sep (c # pre @ rest)"
    using Cons.prems assms(1) by (cases sep) auto
  obtain p ps where sp: "split_on sep (pre @ rest) = p # ps"
    by (cases "split_on sep (pre @ rest)") simp_all
  from Cons have "hd (split_on sep (pre @ rest)) = pre @ hd (split_on sep rest)" by simp
  with np sp show ?case by simp
qed

lemma field_text_well_formed:
  assumes wf: "well_formed_field key response pre body post"
    and key: "key \<noteq> []" "hd key \<noteq> CHR ''/''" "CHR ''<'' \<notin> set key"
  shows "field_text response key = Inr (strip body)"
proof -
  let ?open = "open_tag key" and ?close = "close_tag key"
  from wf have resp: "response = pre @ ?open @ body @ ?close @ post"
    and absent: "\<not> sublist ?open pre" and body: "CHR ''<'' \<notin> set body"
    by (simp_all add: well_formed_field_def)
  have on: "?open \<noteq> []" and oh: "hd ?open = CHR ''<''"
    and ot: "hd ?open \<notin> set (tl ?open)"
    using key(3) by (simp_all add: open_tag_def)
  have cn: "?close \<noteq> []" and ch: "hd ?close = CHR ''<''"
    by (simp_all add: close_tag_def)
  have first: "split_on ?open response = pre # split_on ?open (body @ ?close @ post)"
    unfolding resp using on ot absent by (rule split_on_first_occurrence)
  obtain after rest where ar: "split_on ?open (body @ ?close @ post) = after # rest"
    by (cases "split_on ?open (body @ ?close @ post)") simp_all
  have "after = hd (split_on ?open (body @ ?close @ post))" using ar by simp
  also have "\<dots> = body @ hd (split_on ?open (?close @ post))"
    using on body oh by (intro hd_split_on_skip) simp_all
  finally have after1: "after = body @ hd (split_on ?open (?close @ post))" .
  obtain k ks where k: "key = k # ks" using key(1) by (cases key) auto
  have np: "\<not> prefix ?open (?close @ post)"
    using key(2) k by (simp add: open_tag_def close_tag_def)
  define mid where "mid = CHR ''/'' # key @ ''>''"
  have cl: "?close @ post = CHR ''<'' # mid @ post"
    by (simp add: close_tag_def mid_def)
  have midfree: "hd ?open \<notin> set mid"
    using key(3) oh by (simp add: mid_def)
  obtain p ps where sp: "split_on ?open (mid @ post) = p # ps"
    by (metis neq_Nil_conv split_on_not_Nil)
  have "hd (split_on ?open (mid @ post)) = mid @ hd (split_on ?open post)"
    using on midfree by (rule hd_split_on_skip)
  with sp have p: "p = mid @ hd (split_on ?open post)" by simp
  have "\<not> prefix ?open (CHR ''<'' # mid @ post)" using np cl by simp
  then have "split_on ?open (CHR ''<'' # mid @ post) = (CHR ''<'' # p) # ps"
    using sp by simp
  then have "hd (split_on ?open (?close @ post)) = ?close @ hd (split_on ?open post)"
    using p cl by simp
  with after1 have after2: "after = body @ ?close @ hd (split_on ?open post)" by simp
  have "split_on ?close after = body # split_on ?close (hd (split_on ?open post))"
    unfolding after2 using cn body ch by (intro split_on_first) simp_all
  then show ?thesis using first ar by (simp add: field_text_def)
qed

lemma field_text_no_open_tag:
  "\<not> sublist (open_tag key) response \<Longrightarrow> field_text response key = Inl IndexError"
  by (simp add: field_text_def split_on_no_occurrence)

lemma parse_field_error:
  "isl (parse_field to_float response key) \<Longrightarrow>
     parse_field to_float response key = Inl (ValueError (''Error parsing '' @ key))"
  by (auto simp: parse_field_def split: sum.splits option.splits)

lemma parse_loop_first_error:
  assumes "key \<in> set keys" "isl (parse_field to_float response key)"
    "\<forall>j\<in>set (takeWhile (\<lambda>x. x \<noteq> key) keys). \<not> isl (parse_field to_float response j)"
  shows "parse_loop to_float response keys results = Inl (ValueError (''Error parsing '' @ key))"
  using assms
proof (induction keys arbitrary: results)
  case Nil
  then show ?case by simp
next
  case (Cons k keys)
  show ?case
  proof (cases "k = key")
    case True
    with Cons.prems(2) parse_field_error [of to_float response key] show ?thesis by simp
  next
    case False
    with Cons.prems(3) have "\<not> isl (parse_field to_float response k)" by simp
    then obtain x where x: "parse_field to_float response k = Inr x"
      by (cases "parse_field to_float response k") simp_all
    from Cons.prems False have "key \<in> set keys"
      "\<forall>j\<in>set (takeWhile (\<lambda>x. x \<noteq> key) keys). \<not> isl (parse_field to_float response j)"
      by simp_all
    from Cons.IH [OF this(1) Cons.prems(2) this(2)] x show ?thesis by simp
  qed
qed

lemma parse_loop_first_failing:
  assumes "key \<in> set keys" "isl (parse_field to_float response key)"
  shows "\<exists>k\<in>set keys. isl (parse_field to_float response k) \<and>
           (\<forall>j\<in>set (takeWhile (\<lambda>x. x \<noteq> k) keys). \<not> isl (parse_field to_float response j)) \<and>
           parse_loop to_float response keys results = Inl (ValueError (''Error parsing '' @ k))"
  using assms(1)
proof (induction keys arbitrary: results)
  case Nil
  then show ?case by simp
next
  case (Cons k keys)
  show ?case
  proof (cases "parse_field to_float response k")
    case (Inl e)
    then have f: "isl (parse_field to_float response k)" by simp
    have "parse_loop to_float response (k # keys) results
            = Inl (ValueError (''Error parsing '' @ k))"
      using parse_field_error [OF f] by simp
    with f show ?thesis by (intro bexI [of _ k]) simp_all
  next
    case (Inr x)
    with Cons.prems assms(2) have "key \<in> set keys" by auto
    from Cons.IH [OF this, of "dict_set results k x"] obtain k'
      where k': "k' \<in> set keys" "isl (parse_field to_float response k')"
        "\<forall>j\<in>set (takeWhile (\<lambda>x. x \<noteq> k') keys). \<not> isl (parse_field to_float response j)"
        "parse_loop to_float response keys (dict_set results k x)
           = Inl (ValueError (''Error parsing '' @ k'))"
      by blast
    have ne: "k \<noteq> k'" using Inr k'(2) by auto
    have "\<forall>j\<in>set (takeWhile (\<lambda>x. x \<noteq> k') (k # keys)).
            \<not> isl (parse_field to_float response j)"
      using ne Inr k'(3) by simp
    moreover have "parse_loop to_float response (k # keys) results
            = Inl (ValueError (''Error parsing '' @ k'))"
      using Inr k'(4) by simp
    ultimately show ?thesis using k'(1,2) by (intro bexI [of _ k']) simp_all
  qed
qed

lemma parse_loop_all_fields:
  assumes "parse_field to_float response k1 = Inr v1" "parse_field to_float response k2 = Inr v2"
    "parse_field to_float response k3 = Inr v3" "parse_field to_float response k4 = Inr v4"
    "distinct [k1, k2, k3, k4]"
  shows "parse_loop to_float response [k1, k2, k3, k4] []
           = Inr [(k1, v1), (k2, v2), (k3, v3), (k4, v4)]"
  using assms by simp

lemma parse_field_well_formed:
  assumes "well_formed_field key response pre body post" "key \<in> set KEYS"
  shows "parse_field to_float response key =
           (case to_float (strip body) of
              None \<Rightarrow> Inl (ValueError (''Error parsing '' @ key))
            | Some x \<Rightarrow> Inr x)"
proof -
  from assms(2) have "key \<noteq> []" "hd key \<noteq> CHR ''/''" "CHR ''<'' \<notin> set key"
    by (auto simp: KEYS_def)
  with assms(1) have "field_text response key = Inr (strip body)"
    by (rule field_text_well_formed)
  then show ?thesis by (simp add: parse_field_def)
qed

lemma parse_field_no_open_tag:
  "\<not> sublist (open_tag key) response \<Longrightarrow> isl (parse_field to_float response key)"
  by (simp add: parse_field_def field_text_no_open_tag)

text \<open>
  Claim C9, as amended. When each of the four fields is written out in full (its first
  opening tag, a body without \<open><\<close>, its closing tag) and each trimmed body parses as
  a float, the result is the serialised mapping of the four keys, in order, to those
  floats. When the opening tag of a field is absent, or the field is written out in
  full and its trimmed body does not parse, the parser raises the error naming the first
  field, in the order of the keys, on which the loop body fails: that very field when
  every earlier field parses, and otherwise an earlier one, before which every field
  parses. There is a single pass and no retry.
\<close>

theorem parser_prediction_response_result:
  "(well_formed_field ''p_yes'' response pre1 b1 post1 \<and> to_float (strip b1) = Some v1 \<and>
    well_formed_field ''p_no'' response pre2 b2 post2 \<and> to_float (strip b2) = Some v2 \<and>
    well_formed_field ''info_utility'' response pre3 b3 post3 \<and> to_float (strip b3) = Some v3 \<and>
    well_formed_field ''confidence'' response pre4 b4 post4 \<and> to_float (strip b4) = Some v4
    \<longrightarrow> parser_prediction_response to_float json_dumps response
          = Inr (json_dumps [(''p_yes'', v1), (''p_no'', v2), (''info_utility'', v3),
                             (''confidence'', v4)])) \<and>
   (\<forall>key\<in>set KEYS.
      (\<not> sublist (open_tag key) response \<or>
       (\<exists>pre body post. well_formed_field key response pre body post \<and>
                         to_float (strip body) = None)) \<longrightarrow>
      isl (parse_field to_float response key) \<and>
      (\<exists>k\<in>set KEYS. isl (parse_field to_float response k) \<and>
           (\<forall>j\<in>set (takeWhile (\<lambda>x. x \<noteq> k) KEYS).
               \<not> isl (parse_field to_float response j)) \<and>
           parser_prediction_response to_float json_dumps response
             = Inl (ValueError (''Error parsing '' @ k))) \<and>
      ((\<forall>j\<in>set (takeWhile (\<lambda>x. x \<noteq> key) KEYS). \<not> isl (parse_field to_float response j)) \<longrightarrow>
           parser_prediction_response to_float json_dumps response
             = Inl (ValueError (''Error parsing '' @ key))))"
proof (intro conjI impI ballI)
  assume h: "well_formed_field ''p_yes'' response pre1 b1 post1 \<and> to_float (strip b1) = Some v1 \<and>
    well_formed_field ''p_no'' response pre2 b2 post2 \<and> to_float (strip b2) = Some v2 \<and>
    well_formed_field ''info_utility'' response pre3 b3 post3 \<and> to_float (strip b3) = Some v3 \<and>
    well_formed_field ''confidence'' response pre4 b4 post4 \<and> to_float (strip b4) = Some v4"
  have f1: "parse_field to_float response ''p_yes'' = Inr v1"
    using h parse_field_well_formed [of "''p_yes''" response pre1 b1 post1 to_float]
    by (simp add: KEYS_def)
  have f2: "parse_field to_float response ''p_no'' = Inr v2"
    using h parse_field_well_formed [of "''p_no''" response pre2 b2 post2 to_float]
    by (simp add: KEYS_def)
  have f3: "parse_field to_float response ''info_utility'' = Inr v3"
    using h parse_field_well_formed [of "''info_utility''" response pre3 b3 post3 to_float]
    by (simp add: KEYS_def)
  have f4: "parse_field to_float response ''confidence'' = Inr v4"
    using h parse_field_well_formed [of "''confidence''" response pre4 b4 post4 to_float]
    by (simp add: KEYS_def)
  have "parse_loop to_float response KEYS []
          = Inr [(''p_yes'', v1), (''p_no'', v2), (''info_utility'', v3), (''confidence'', v4)]"
    unfolding KEYS_def using f1 f2 f3 f4 by (intro parse_loop_all_fields) simp_all
  then show "parser_prediction_response to_float json_dumps response
          = Inr (json_dumps [(''p_yes'', v1), (''p_no'', v2), (''info_utility'', v3),
                             (''confidence'', v4)])"
    by (simp add: parser_prediction_response_def)
next
  fix key
  assume key: "key \<in> set KEYS"
    and bad: "\<not> sublist (open_tag key) response \<or>
       (\<exists>pre body post. well_formed_field key response pre body post \<and>
                         to_float (strip body) = None)"
  show fails: "isl (parse_field to_float response key)"
    using bad
  proof
    assume "\<not> sublist (open_tag key) response"
    then show ?thesis by (rule parse_field_no_open_tag)
  next
    assume "\<exists>pre body post. well_formed_field key response pre body post \<and>
                         to_float (strip body) = None"
    then obtain pre body post where "well_formed_field key response pre body post"
      "to_float (strip body) = None" by blast
    with parse_field_well_formed [OF this(1) key, of to_float] show ?thesis by simp
  qed
  from parse_loop_first_failing [OF key fails, of "[]"] obtain k
    where k: "k \<in> set KEYS" "isl (parse_field to_float response k)"
      "\<forall>j\<in>set (takeWhile (\<lambda>x. x \<noteq> k) KEYS). \<not> isl (parse_field to_float response j)"
      "parse_loop to_float response KEYS [] = Inl (ValueError (''Error parsing '' @ k))"
    by blast
  have "parser_prediction_response to_float json_dumps response
             = Inl (ValueError (''Error parsing '' @ k))"
    using k(4) by (simp add: parser_prediction_response_def)
  with k(1,2,3)
  show "\<exists>k\<in>set KEYS. isl (parse_field to_float response k) \<and>
           (\<forall>j\<in>set (takeWhile (\<lambda>x. x \<noteq> k) KEYS).
               \<not> isl (parse_field to_float response j)) \<and>
           parser_prediction_response to_float json_dumps response
             = Inl (ValueError (''Error parsing '' @ k))"
    by blast
  assume "\<forall>j\<in>set (takeWhile (\<lambda>x. x \<noteq> key) KEYS). \<not> isl (parse_field to_float response j)"
  from parse_loop_first_error [OF key fails this, of "[]"]
  show "parser_prediction_response to_float json_dumps response
             = Inl (ValueError (''Error parsing '' @ key))"
    by (simp add: parser_prediction_response_def)
qed

lemmas prediction_eval =
  parser_prediction_response_def KEYS_def parse_field_def field_text_def open_tag_def
  close_tag_def strip_def isspace_def sample_float_def sample_dumps_def

lemma two_failures_named:
  "\<not> sublist (open_tag ''confidence'') two_failures_response \<and>
   isl (parse_field sample_float two_failures_response ''p_yes'')"
  by (simp add: two_failures_response_def prediction_eval sublist_Cons_right)

theorem parser_prediction_response_result_witness:
  "parser_prediction_response sample_float sample_dumps good_response
     = Inr [(''p_yes'', 7 / 10), (''p_no'', 3 / 10), (''info_utility'', 8 / 10),
            (''confidence'', 9 / 10)] \<and>
   \<not> sublist (open_tag ''confidence'') no_confidence_response \<and>
   parser_prediction_response sample_float sample_dumps no_confidence_response
     = Inl (ValueError ''Error parsing confidence'') \<and>
   well_formed_field ''p_yes'' bad_number_response [] ''high''
     ''<p_no>0.3</p_no><info_utility>0.8</info_utility><confidence>0.9</confidence>'' \<and>
   sample_float (strip ''high'') = None \<and>
   parser_prediction_response sample_float sample_dumps bad_number_response
     = Inl (ValueError ''Error parsing p_yes'') \<and>
   \<not> sublist (open_tag ''confidence'') two_failures_response \<and>
   isl (parse_field sample_float two_failures_response ''p_yes'') \<and>
   parser_prediction_response sample_float sample_dumps two_failures_response
     = Inl (ValueError ''Error parsing p_yes'')"
proof -
  have w1: "well_formed_field ''p_yes'' good_response [] ''0.7''
      ''<p_no>0.3</p_no><info_utility>0.8</info_utility><confidence>0.9</confidence>''"
    by (simp add: well_formed_field_def good_response_def open_tag_def close_tag_def)
  have w2: "well_formed_field ''p_no'' good_response ''<p_yes>0.7</p_yes>'' ''0.3''
      ''<info_utility>0.8</info_utility><confidence>0.9</confidence>''"
    by (simp add: well_formed_field_def good_response_def open_tag_def close_tag_def
        sublist_Cons_right)
  have w3: "well_formed_field ''info_utility'' good_response
      ''<p_yes>0.7</p_yes><p_no>0.3</p_no>'' ''0.8'' ''<confidence>0.9</confidence>''"
    by (simp add: well_formed_field_def good_response_def open_tag_def close_tag_def
        sublist_Cons_right)
  have w4: "well_formed_field ''confidence'' good_response
      ''<p_yes>0.7</p_yes><p_no>0.3</p_no><info_utility>0.8</info_utility>'' ''0.9'' []"
    by (simp add: well_formed_field_def good_response_def open_tag_def close_tag_def
        sublist_Cons_right)
  have fl: "sample_float (strip ''0.7'') = Some (7 / 10)"
    "sample_float (strip ''0.3'') = Some (3 / 10)"
    "sample_float (strip ''0.8'') = Some (8 / 10)"
    "sample_float (strip ''0.9'') = Some (9 / 10)"
    by (simp_all add: sample_float_def strip_def isspace_def)
  from w1 w2 w3 w4 fl
    parser_prediction_response_result [of good_response "[]" "''0.7''" _ sample_float "7 / 10"
      _ "''0.3''" _ "3 / 10" _ "''0.8''" _ "8 / 10" _ "''0.9''" "[]" "9 / 10" sample_dumps]
  have good: "parser_prediction_response sample_float sample_dumps good_response
     = Inr [(''p_yes'', 7 / 10), (''p_no'', 3 / 10), (''info_utility'', 8 / 10),
            (''confidence'', 9 / 10)]"
    by (simp add: sample_dumps_def)
  have absent: "\<not> sublist (open_tag ''confidence'') no_confidence_response"
    by (simp add: open_tag_def no_confidence_response_def sublist_Cons_right)
  have earlier: "\<forall>j\<in>set (takeWhile (\<lambda>x. x \<noteq> ''confidence'') KEYS).
      \<not> isl (parse_field sample_float no_confidence_response j)"
    by (simp add: no_confidence_response_def prediction_eval)
  have mem: "''confidence'' \<in> set KEYS" by (simp add: KEYS_def)
  from absent earlier mem
    parser_prediction_response_result [of no_confidence_response _ _ _ sample_float _ _ _ _ _
      _ _ _ _ _ _ _ _ sample_dumps]
  have missing: "parser_prediction_response sample_float sample_dumps no_confidence_response
     = Inl (ValueError (''Error parsing '' @ ''confidence''))"
    by blast
  have wb: "well_formed_field ''p_yes'' bad_number_response [] ''high''
     ''<p_no>0.3</p_no><info_utility>0.8</info_utility><confidence>0.9</confidence>''"
    by (simp add: well_formed_field_def bad_number_response_def open_tag_def close_tag_def)
  have nb: "sample_float (strip ''high'') = None"
    by (simp add: sample_float_def strip_def isspace_def)
  have eb: "parser_prediction_response sample_float sample_dumps bad_number_response
     = Inl (ValueError ''Error parsing p_yes'')"
    by (simp add: bad_number_response_def prediction_eval)
  have two: "\<not> sublist (open_tag ''confidence'') two_failures_response"
    "isl (parse_field sample_float two_failures_response ''p_yes'')"
    using two_failures_named by simp_all
  from two(1) mem
    parser_prediction_response_result [of two_failures_response _ _ _ sample_float _ _ _ _ _
      _ _ _ _ _ _ _ _ sample_dumps]
  obtain k where k: "k \<in> set KEYS"
      "\<forall>j\<in>set (takeWhile (\<lambda>x. x \<noteq> k) KEYS).
          \<not> isl (parse_field sample_float two_failures_response j)"
      "parser_prediction_response sample_float sample_dumps two_failures_response
         = Inl (ValueError (''Error parsing '' @ k))"
    by blast
  have "k = ''p_yes''"
  proof (rule ccontr)
    assume "k \<noteq> ''p_yes''"
    then have "''p_yes'' \<in> set (takeWhile (\<lambda>x. x \<noteq> k) KEYS)" by (simp add: KEYS_def)
    with k(2) two(2) show False by blast
  qed
  with k(3) have first: "parser_prediction_response sample_float sample_dumps two_failures_response
         = Inl (ValueError ''Error parsing p_yes'')"
    by simp
  from good absent missing wb nb eb two first show ?thesis by simp
qed

text \<open>
  The closing tag of \<open>confidence\<close> is absent, so the response holds no tag pair for that
  field; the text after the opening tag, \<open>0.9\<close>, parses, and the parser returns the
  mapping instead of raising.
\<close>

theorem parser_prediction_response_unclosed_counterexample:
  "\<not> sublist (close_tag ''confidence'') unclosed_response \<and>
   parser_prediction_response sample_float sample_dumps unclosed_response
     = Inr [(''p_yes'', 7 / 10), (''p_no'', 3 / 10), (''info_utility'', 8 / 10),
            (''confidence'', 9 / 10)]"
  by (simp add: unclosed_response_def prediction_eval sublist_Cons_right)

end
